theory Spec2Isabelle
  imports Main
begin

section \<open>Characters and strings\<close>

text \<open>
  A Python \<open>str\<close> is a sequence of code points. The embedding takes the code points
  below 256, one \<open>char\<close> each, so \<open>length\<close> counts what \<open>len\<close> counts. The
  classes below are what Python's \<open>re\<close> (\<open>\d\<close>, \<open>\w\<close>) and \<open>str\<close>
  (\<open>split()\<close>, \<open>lower()\<close>) compute on that range.
\<close>

definition code :: "char \<Rightarrow> nat" where
  "code c = of_char c"

definition in_range :: "char \<Rightarrow> char \<Rightarrow> char \<Rightarrow> bool" where
  "in_range lo hi c = (code lo \<le> code c \<and> code c \<le> code hi)"

definition is_digit :: "char \<Rightarrow> bool" where
  \<comment> \<open>\<open>\d\<close> and \<open>[0-9]\<close>: the only decimal digits below 256 are \<open>0\<close> to \<open>9\<close>\<close>
  "is_digit c = in_range CHR ''0'' CHR ''9'' c"

definition is_upper :: "char \<Rightarrow> bool" where
  \<comment> \<open>\<open>[A-Z]\<close>\<close>
  "is_upper c = in_range CHR ''A'' CHR ''Z'' c"

definition is_lower :: "char \<Rightarrow> bool" where
  \<comment> \<open>\<open>[a-z]\<close>\<close>
  "is_lower c = in_range CHR ''a'' CHR ''z'' c"

definition is_alpha :: "char \<Rightarrow> bool" where
  \<comment> \<open>\<open>[A-Za-z]\<close>\<close>
  "is_alpha c = (is_upper c \<or> is_lower c)"

definition is_word :: "char \<Rightarrow> bool" where
  \<comment> \<open>\<open>\w\<close>: alphanumeric in the Unicode sense, or the underscore\<close>
  "is_word c =
     (is_alpha c \<or> is_digit c \<or> c = CHR ''_''
      \<or> code c \<in> {0xAA, 0xB2, 0xB3, 0xB5, 0xB9, 0xBA, 0xBC, 0xBD, 0xBE}
      \<or> (0xC0 \<le> code c \<and> code c \<noteq> 0xD7 \<and> code c \<noteq> 0xF7))"

definition is_space :: "char \<Rightarrow> bool" where
  \<comment> \<open>the separators of \<open>str.split()\<close> without argument\<close>
  "is_space c = (code c \<in> {9, 10, 11, 12, 13, 28, 29, 30, 31, 32, 133, 160})"

definition lower_chr :: "char \<Rightarrow> char" where
  "lower_chr c =
     (if is_upper c \<or> (0xC0 \<le> code c \<and> code c \<le> 0xDE \<and> code c \<noteq> 0xD7)
      then char_of (code c + 32) else c)"

definition lower :: "string \<Rightarrow> string" where
  \<comment> \<open>\<open>s.lower()\<close>\<close>
  "lower s = map lower_chr s"

definition upper_chr :: "char \<Rightarrow> char" where
  "upper_chr c = (if is_lower c then char_of (code c - 32) else c)"

definition upper :: "string \<Rightarrow> string" where
  \<comment> \<open>\<open>key.upper()\<close>; the source applies it to the keys \<open>device_id\<close> and
      \<open>ip_address\<close> only, whose letters are all in \<open>[a-z]\<close>\<close>
  "upper s = map upper_chr s"

section \<open>Regular expressions\<close>

text \<open>
  The patterns of \<open>PIIDetector.__init__\<close> use literals, character classes, greedy
  repetition of a class, sequence, alternation, \<open>\b\<close>, \<open>^\<close> and \<open>$\<close>. A
  pattern is run at a position \<open>i\<close> of the subject \<open>s\<close>; \<open>rx_ends\<close> lists the
  positions where a match starting at \<open>i\<close> can end, in the order in which a backtracking
  matcher tries them. The source only asks whether a match exists.
\<close>

datatype rx =
    Lit string
  | Cls "char \<Rightarrow> bool"
  | Rep "char \<Rightarrow> bool" nat "nat option"
  | Seq rx rx
  | Alt rx rx
  | WordB
  | Bol
  | Eol

definition word_at :: "string \<Rightarrow> nat \<Rightarrow> bool" where
  "word_at s i = (i < length s \<and> is_word (s ! i))"

definition word_before :: "string \<Rightarrow> nat \<Rightarrow> bool" where
  "word_before s i = (0 < i \<and> word_at s (i - 1))"

fun rx_ends :: "rx \<Rightarrow> string \<Rightarrow> nat \<Rightarrow> nat list" where
  "rx_ends (Lit w) s i = (if take (length w) (drop i s) = w then [i + length w] else [])"
| "rx_ends (Cls P) s i = (if i < length s \<and> P (s ! i) then [i + 1] else [])"
| "rx_ends (Rep P lo hi) s i =
     (let m = length (takeWhile P (drop i s));
          top = (case hi of None \<Rightarrow> m | Some h \<Rightarrow> min m h)
      in map (\<lambda>k. i + k) (rev [lo..<Suc top]))"
| "rx_ends (Seq a b) s i = concat (map (rx_ends b s) (rx_ends a s i))"
| "rx_ends (Alt a b) s i = rx_ends a s i @ rx_ends b s i"
| "rx_ends WordB s i = (if word_before s i \<noteq> word_at s i then [i] else [])"
| "rx_ends Bol s i = (if i = 0 then [i] else [])"
| "rx_ends Eol s i =
     (if i = length s \<or> (i + 1 = length s \<and> s ! i = CHR 0x0A) then [i] else [])"

fun seqs :: "rx list \<Rightarrow> rx" where
  "seqs [] = Lit []"
| "seqs [r] = r"
| "seqs (r # rs) = Seq r (seqs rs)"

fun alts :: "rx list \<Rightarrow> rx" where
  "alts [] = Lit []"
| "alts [r] = r"
| "alts (r # rs) = Alt r (alts rs)"

definition re_match :: "rx \<Rightarrow> string \<Rightarrow> bool" where
  \<comment> \<open>\<open>bool(pattern.match(s))\<close>: a match that starts at position 0\<close>
  "re_match p s = (rx_ends p s 0 \<noteq> [])"

definition re_search :: "rx \<Rightarrow> string \<Rightarrow> bool" where
  \<comment> \<open>\<open>bool(re.search(pattern, s))\<close>: a match that starts anywhere\<close>
  "re_search p s = list_ex (\<lambda>i. rx_ends p s i \<noteq> []) [0..<Suc (length s)]"

section \<open>Pattern library\<close>

definition phone_pattern :: rx where
  \<comment> \<open>\<open>\b[6-9]\d{9}\b\<close>\<close>
  "phone_pattern = seqs [WordB, Cls (in_range CHR ''6'' CHR ''9''), Rep is_digit 9 (Some 9), WordB]"

definition aadhar_pattern :: rx where
  \<comment> \<open>\<open>\b\d{12}\b\<close>\<close>
  "aadhar_pattern = seqs [WordB, Rep is_digit 12 (Some 12), WordB]"

definition passport_pattern :: rx where
  \<comment> \<open>\<open>\b[A-Z]\d{7}\b\<close>\<close>
  "passport_pattern = seqs [WordB, Cls is_upper, Rep is_digit 7 (Some 7), WordB]"

definition upi_handles :: "string list" where
  "upi_handles =
     [''paytm'', ''ybl'', ''okaxis'', ''axisbank'', ''hdfcbank'', ''icici'', ''sbi'', ''kotak'',
      ''phonepe'', ''ibl'', ''unionbank'', ''canara'', ''pnb'', ''andhra'', ''federal'',
      ''karnataka'', ''punjab'', ''maharashtra'', ''axis'', ''indianbank'', ''yesbank'']"

definition upi_pattern :: rx where
  \<comment> \<open>\<open>\b[\w\d]+@(paytm|ybl|...|yesbank)\b\<close>\<close>
  "upi_pattern =
     seqs [WordB, Rep (\<lambda>c. is_word c \<or> is_digit c) 1 None, Lit ''@'',
           alts (map Lit upi_handles), WordB]"

definition is_email_local :: "char \<Rightarrow> bool" where
  \<comment> \<open>\<open>[A-Za-z0-9._%+-]\<close>\<close>
  "is_email_local c = (is_alpha c \<or> is_digit c \<or> c \<in> set ''._%+-'')"

definition is_email_domain :: "char \<Rightarrow> bool" where
  \<comment> \<open>\<open>[A-Za-z0-9.-]\<close>\<close>
  "is_email_domain c = (is_alpha c \<or> is_digit c \<or> c \<in> set ''.-'')"

definition email_pattern :: rx where
  \<comment> \<open>\<open>\b[A-Za-z0-9._%+-]+@[A-Za-z0-9.-]+\.[A-Za-z]{2,}\b\<close>\<close>
  "email_pattern =
     seqs [WordB, Rep is_email_local 1 None, Lit ''@'', Rep is_email_domain 1 None,
           Lit ''.'', Rep is_alpha 2 None, WordB]"

definition name_pattern :: rx where
  \<comment> \<open>\<open>^[A-Z][a-z]+ [A-Z][a-z]+$\<close>\<close>
  "name_pattern =
     seqs [Bol, Cls is_upper, Rep is_lower 1 None, Lit '' '', Cls is_upper,
           Rep is_lower 1 None, Eol]"

text \<open>
  Every call of a recogniser in the source passes \<open>str(val)\<close>, so the coercion of a
  number at the head of \<open>is_phone_number\<close> and \<open>is_aadhar\<close> is never taken and the
  recognisers are embedded on strings.
\<close>

definition is_phone_number :: "string \<Rightarrow> bool" where
  "is_phone_number v = re_match phone_pattern v"

definition is_aadhar :: "string \<Rightarrow> bool" where
  "is_aadhar v = re_match aadhar_pattern v"

definition is_passport :: "string \<Rightarrow> bool" where
  "is_passport v = re_match passport_pattern v"

definition is_upi_id :: "string \<Rightarrow> bool" where
  "is_upi_id v = re_match upi_pattern v"

definition is_email :: "string \<Rightarrow> bool" where
  "is_email v = re_match email_pattern v"

definition is_full_name :: "string \<Rightarrow> bool" where
  "is_full_name v = re_match name_pattern v"

definition has_address_components :: "string \<Rightarrow> bool" where
  "has_address_components v =
     (let s = lower v;
          has_numbers = re_search (Rep is_digit 1 None) s;
          has_comma = (CHR '','' \<in> set s);
          has_pin = re_search (seqs [WordB, Rep is_digit 6 (Some 6), WordB]) s
      in has_numbers \<and> has_comma \<and> has_pin)"

section \<open>Values and records\<close>

datatype error = ValueError | OverflowError | IndexError

text \<open>
  A float is carried by the three observations the source makes of it: \<open>str(x)\<close>,
  \<open>int(x)\<close> (which raises \<open>ValueError\<close> on a NaN and \<open>OverflowError\<close> on an
  infinity) and its truth value. \<open>json.loads\<close> delivers \<open>NaN\<close>, \<open>Infinity\<close> and
  \<open>-Infinity\<close> as floats.
\<close>

datatype pyfloat = PyFloat (float_str: string) (float_int: "error + int") (float_bool: bool)

datatype pyval = VNone | VStr string | VInt int | VFloat pyfloat

text \<open>A record is a Python \<open>dict\<close>: keys in insertion order, no key twice.\<close>

type_synonym pydict = "(string \<times> pyval) list"


definition bind :: "error + 'a \<Rightarrow> ('a \<Rightarrow> error + 'b) \<Rightarrow> error + 'b" where
  "bind m f = (case m of Inl e \<Rightarrow> Inl e | Inr x \<Rightarrow> f x)"

fun str_nat :: "nat \<Rightarrow> string" where
  "str_nat n =
     (if n < 10 then [char_of (48 + n)] else str_nat (n div 10) @ [char_of (48 + n mod 10)])"

declare str_nat.simps [simp del]

definition str_int :: "int \<Rightarrow> string" where
  "str_int i = (if i < 0 then CHR ''-'' # str_nat (nat (- i)) else str_nat (nat i))"

definition str_val :: "pyval \<Rightarrow> string" where
  \<comment> \<open>\<open>str(val)\<close>\<close>
  "str_val v = (case v of VNone \<Rightarrow> ''None'' | VStr s \<Rightarrow> s | VInt i \<Rightarrow> str_int i
                | VFloat x \<Rightarrow> float_str x)"

definition is_number :: "pyval \<Rightarrow> bool" where
  \<comment> \<open>\<open>isinstance(value, (int, float))\<close>\<close>
  "is_number v = (case v of VInt _ \<Rightarrow> True | VFloat _ \<Rightarrow> True | _ \<Rightarrow> False)"

definition int_val :: "pyval \<Rightarrow> error + int" where
  \<comment> \<open>\<open>int(value)\<close> of a number\<close>
  "int_val v = (case v of VInt i \<Rightarrow> Inr i | VFloat x \<Rightarrow> float_int x | _ \<Rightarrow> Inl ValueError)"

definition truthy :: "pyval \<Rightarrow> bool" where
  "truthy v = (case v of VNone \<Rightarrow> False | VStr s \<Rightarrow> s \<noteq> [] | VInt i \<Rightarrow> i \<noteq> 0
               | VFloat x \<Rightarrow> float_bool x)"

definition dict_get :: "pydict \<Rightarrow> string \<Rightarrow> pyval" where
  \<comment> \<open>\<open>data.get(k)\<close>, \<open>None\<close> for a missing key\<close>
  "dict_get d k = (case map_of d k of None \<Rightarrow> VNone | Some v \<Rightarrow> v)"

fun dict_set :: "pydict \<Rightarrow> string \<Rightarrow> pyval \<Rightarrow> pydict" where
  \<comment> \<open>\<open>d[k] = v\<close>: an existing key keeps its place, a new key goes last\<close>
  "dict_set [] k v = [(k, v)]"
| "dict_set ((k', v') # d) k v = (if k' = k then (k, v) # d else (k', v') # dict_set d k v)"

section \<open>Detection\<close>

definition standalone_step :: "bool \<times> string list \<Rightarrow> string \<times> pyval \<Rightarrow> bool \<times> string list" where
  "standalone_step st kv =
     (case st of (pii_found, fields) \<Rightarrow> case kv of (k, val) \<Rightarrow>
        if val = VNone then (pii_found, fields)
        else let s = str_val val in
          if k = ''phone'' \<or> is_phone_number s then (True, fields @ [k])
          else if k = ''aadhar'' \<or> is_aadhar s then (True, fields @ [k])
          else if k = ''passport'' \<or> is_passport s then (True, fields @ [k])
          else if k = ''upi_id'' \<or> is_upi_id s then (True, fields @ [k])
          else (pii_found, fields))"

definition detect_standalone_pii :: "pydict \<Rightarrow> bool \<times> string list" where
  "detect_standalone_pii data = foldl standalone_step (False, []) data"

record combo_state =
  has_full_name :: bool
  has_email :: bool
  has_address :: bool
  has_device :: bool
  cfields :: "string list"

definition combo_init :: combo_state where
  "combo_init = \<lparr>has_full_name = False, has_email = False, has_address = False,
                 has_device = False, cfields = []\<rparr>"

definition combo_step :: "combo_state \<Rightarrow> string \<times> pyval \<Rightarrow> combo_state" where
  "combo_step st kv =
     (case kv of (k, val) \<Rightarrow>
        if val = VNone then st
        else let s = str_val val in
          if k = ''name'' \<and> is_full_name s
            then st\<lparr>has_full_name := True, cfields := cfields st @ [k]\<rparr>
          else if k = ''email'' \<and> is_email s
            then st\<lparr>has_email := True, cfields := cfields st @ [k]\<rparr>
          else if k = ''address'' \<and> has_address_components s
            then st\<lparr>has_address := True, cfields := cfields st @ [k]\<rparr>
          else if k \<in> set [''device_id'', ''ip_address'']
            then st\<lparr>has_device := True, cfields := cfields st @ [k]\<rparr>
          else st)"

definition combo_scan :: "pydict \<Rightarrow> combo_state" where
  \<comment> \<open>the state after the loop over \<open>data.items()\<close>\<close>
  "combo_scan data = foldl combo_step combo_init data"

definition has_name_parts :: "pydict \<Rightarrow> bool" where
  "has_name_parts data = (truthy (dict_get data ''first_name'') \<and> truthy (dict_get data ''last_name''))"

definition combo_fields :: "pydict \<Rightarrow> string list" where
  "combo_fields data =
     cfields (combo_scan data) @ (if has_name_parts data then [''first_name'', ''last_name''] else [])"

definition combo_elements :: "pydict \<Rightarrow> bool list" where
  "combo_elements data =
     (let st = combo_scan data
      in [has_full_name st, has_email st, has_address st, has_device st, has_name_parts data])"

definition combo_count :: "pydict \<Rightarrow> nat" where
  \<comment> \<open>\<open>sum(elements)\<close>\<close>
  "combo_count data = sum_list (map of_bool (combo_elements data))"

definition detect_combinatorial_pii :: "pydict \<Rightarrow> bool \<times> string list \<times> nat" where
  "detect_combinatorial_pii data = (combo_count data \<ge> 2, combo_fields data, combo_count data)"

section \<open>Masking\<close>

definition xes :: "int \<Rightarrow> string" where
  \<comment> \<open>\<open>'X' * n\<close>, empty for a negative \<open>n\<close>\<close>
  "xes n = replicate (nat n) CHR ''X''"

definition len :: "string \<Rightarrow> int" where
  "len s = int (length s)"

definition first_chars :: "nat \<Rightarrow> string \<Rightarrow> string" where
  \<comment> \<open>\<open>s[:k]\<close>\<close>
  "first_chars k s = take k s"

definition last_chars :: "nat \<Rightarrow> string \<Rightarrow> string" where
  \<comment> \<open>\<open>s[-k:]\<close> for \<open>k > 0\<close>\<close>
  "last_chars k s = drop (length s - k) s"

definition index :: "string \<Rightarrow> int \<Rightarrow> error + char" where
  \<comment> \<open>\<open>s[i]\<close>, a negative \<open>i\<close> counting from the end\<close>
  "index s i =
     (let j = (if i < 0 then len s + i else i)
      in if 0 \<le> j \<and> j < len s then Inr (s ! nat j) else Inl IndexError)"

fun split_on :: "char \<Rightarrow> string \<Rightarrow> string list" where
  \<comment> \<open>\<open>s.split(c)\<close>\<close>
  "split_on c [] = [[]]"
| "split_on c (x # r) =
     (if x = c then [] # split_on c r
      else case split_on c r of [] \<Rightarrow> [[x]] | p # ps \<Rightarrow> (x # p) # ps)"

fun split_ws_from :: "string \<Rightarrow> string \<Rightarrow> string list" where
  "split_ws_from cur [] = (if cur = [] then [] else [cur])"
| "split_ws_from cur (x # r) =
     (if is_space x then (if cur = [] then [] else [cur]) @ split_ws_from [] r
      else split_ws_from (cur @ [x]) r)"

definition split_ws :: "string \<Rightarrow> string list" where
  \<comment> \<open>\<open>s.split()\<close>: the maximal runs of characters that are not white space\<close>
  "split_ws s = split_ws_from [] s"

fun join :: "string \<Rightarrow> string list \<Rightarrow> string" where
  \<comment> \<open>\<open>sep.join(parts)\<close>\<close>
  "join sep [] = []"
| "join sep [p] = p"
| "join sep (p # ps) = p @ sep @ join sep ps"

fun collect :: "(error + 'a) list \<Rightarrow> error + 'a list" where
  \<comment> \<open>the items of a generator, up to the first one that raises\<close>
  "collect [] = Inr []"
| "collect (m # ms) = bind m (\<lambda>x. bind (collect ms) (\<lambda>r. Inr (x # r)))"

definition mask_local :: "string \<Rightarrow> string" where
  \<comment> \<open>\<open>(u[:1] + 'X' * (len(u) - 2) + u[-1:]) if len(u) > 2 else 'X' * len(u)\<close>\<close>
  "mask_local u =
     (if len u > 2 then first_chars 1 u @ xes (len u - 2) @ last_chars 1 u else xes (len u))"

definition mask_at :: "string \<Rightarrow> string" where
  \<comment> \<open>the body shared by the \<open>upi_id\<close> and \<open>email\<close> branches\<close>
  "mask_at s =
     (let parts = split_on CHR ''@'' s
      in case parts of [u, d] \<Rightarrow> mask_local u @ ''@'' @ d | _ \<Rightarrow> xes (len s))"

definition mask_token :: "string \<Rightarrow> error + string" where
  \<comment> \<open>\<open>(p[0] + 'X' * (len(p) - 1)) if len(p) > 1 else 'X'\<close>\<close>
  "mask_token p =
     (if len p > 1 then bind (index p 0) (\<lambda>a. Inr (a # xes (len p - 1))) else Inr ''X'')"

definition mask_str :: "string \<Rightarrow> string \<Rightarrow> error + string" where
  \<comment> \<open>the \<open>if\<close>/\<open>elif\<close> chain of \<open>mask_value\<close> on the string form \<open>s\<close>\<close>
  "mask_str key s =
     (if key = ''phone'' \<or> is_phone_number s then
        Inr (if len s \<ge> 10 then first_chars 2 s @ xes (len s - 4) @ last_chars 2 s
             else xes (len s))
      else if key = ''aadhar'' \<or> is_aadhar s then
        Inr (if len s \<ge> 12 then first_chars 3 s @ xes 6 @ last_chars 3 s else xes (len s))
      else if key = ''passport'' \<or> is_passport s then
        (if len s \<ge> 3
         then bind (index s 0) (\<lambda>a. bind (index s (- 1)) (\<lambda>b. Inr (a # xes (len s - 2) @ [b])))
         else Inr (xes (len s)))
      else if key = ''upi_id'' \<or> is_upi_id s then Inr (mask_at s)
      else if key = ''email'' \<or> is_email s then Inr (mask_at s)
      else if key = ''name'' \<and> is_full_name s then
        bind (collect (map mask_token (split_ws s))) (\<lambda>ps. Inr (join '' '' ps))
      else if key \<in> set [''first_name'', ''last_name''] then mask_token s
      else if key = ''address'' then Inr ''[REDACTED_ADDRESS]''
      else if key \<in> set [''device_id'', ''ip_address''] then Inr (''[REDACTED_'' @ upper key @ '']'')
      else Inr ''[REDACTED_PII]'')"

definition mask_value :: "string \<Rightarrow> pyval \<Rightarrow> error + pyval" where
  "mask_value key v =
     (if v = VNone then Inr VNone
      else bind (if is_number v \<and> key \<in> set [''phone'', ''aadhar'']
                 then bind (int_val v) (\<lambda>i. Inr (str_int i))
                 else Inr (str_val v))
             (\<lambda>s. bind (mask_str key s) (\<lambda>m. Inr (VStr m))))"

section \<open>Per-record processing\<close>

fun mask_fields :: "string list \<Rightarrow> pydict \<Rightarrow> error + pydict" where
  \<comment> \<open>\<open>for f in fs: if f in red: red[f] = self.mask_value(f, red[f])\<close>\<close>
  "mask_fields [] red = Inr red"
| "mask_fields (f # fs) red =
     (case map_of red f of
        None \<Rightarrow> mask_fields fs red
      | Some v \<Rightarrow> bind (mask_value f v) (\<lambda>m. mask_fields fs (dict_set red f m)))"

definition process_record :: "pydict \<Rightarrow> error + bool \<times> pydict" where
  "process_record record =
     (let red = record;
          (has_standalone, stand_fields) = detect_standalone_pii record;
          (has_combo, combo_fields, _) = detect_combinatorial_pii record;
          is_pii = (has_standalone \<or> has_combo)
      in if is_pii then
           bind (mask_fields stand_fields red) (\<lambda>red1.
           bind (if has_combo then mask_fields combo_fields red1 else Inr red1) (\<lambda>red2.
           Inr (is_pii, red2)))
         else Inr (is_pii, red))"

section \<open>The loops in closed form\<close>


definition name_hit :: "string \<times> pyval \<Rightarrow> bool" where
  "name_hit kv = (snd kv \<noteq> VNone \<and> fst kv = ''name'' \<and> is_full_name (str_val (snd kv)))"

definition email_hit :: "string \<times> pyval \<Rightarrow> bool" where
  "email_hit kv = (snd kv \<noteq> VNone \<and> fst kv = ''email'' \<and> is_email (str_val (snd kv)))"

definition address_hit :: "string \<times> pyval \<Rightarrow> bool" where
  "address_hit kv =
     (snd kv \<noteq> VNone \<and> fst kv = ''address'' \<and> has_address_components (str_val (snd kv)))"

definition device_hit :: "string \<times> pyval \<Rightarrow> bool" where
  "device_hit kv = (snd kv \<noteq> VNone \<and> fst kv \<in> {''device_id'', ''ip_address''})"

definition combo_hit :: "string \<times> pyval \<Rightarrow> bool" where
  "combo_hit kv = (name_hit kv \<or> email_hit kv \<or> address_hit kv \<or> device_hit kv)"

section \<open>The processor on a store\<close>

text \<open>
  \<open>process_record\<close> starts with \<open>red = record.copy()\<close> and assigns to \<open>red[f]\<close>
  only. To speak about the caller's mapping after the call, the dictionaries are put in a
  store, addressed by position: \<open>copy\<close> allocates a new dictionary, an item assignment
  updates the dictionary at the address it is given, and the detectors read the one at
  \<open>record\<close>.
\<close>

type_synonym store = "pydict list"

definition dict_copy :: "store \<Rightarrow> nat \<Rightarrow> store \<times> nat" where
  \<comment> \<open>\<open>record.copy()\<close>: the store with the new dictionary, and its address\<close>
  "dict_copy h a = (h @ [h ! a], length h)"

fun mask_fields_in :: "string list \<Rightarrow> nat \<Rightarrow> store \<Rightarrow> error + store" where
  "mask_fields_in [] red h = Inr h"
| "mask_fields_in (f # fs) red h =
     (case map_of (h ! red) f of
        None \<Rightarrow> mask_fields_in fs red h
      | Some v \<Rightarrow>
          bind (mask_value f v) (\<lambda>m. mask_fields_in fs red (h[red := dict_set (h ! red) f m])))"

definition process_record_in :: "store \<Rightarrow> nat \<Rightarrow> error + (bool \<times> nat) \<times> store" where
  "process_record_in h record =
     (let (h0, red) = dict_copy h record;
          (has_standalone, stand_fields) = detect_standalone_pii (h0 ! record);
          (has_combo, combo_fields, _) = detect_combinatorial_pii (h0 ! record);
          is_pii = (has_standalone \<or> has_combo)
      in if is_pii then
           bind (mask_fields_in stand_fields red h0) (\<lambda>h1.
           bind (if has_combo then mask_fields_in combo_fields red h1 else Inr h1) (\<lambda>h2.
           Inr ((is_pii, red), h2)))
         else Inr ((is_pii, red), h0))"

section \<open>Shapes of strings\<close>

text \<open>
  Two predicates in which the recognisers are described: the \<open>k\<close> characters of \<open>s\<close>
  from position \<open>i\<close> exist and are all in a class, and nothing, or a character that is
  not a word character, stands at position \<open>n\<close>.
\<close>

definition run_of :: "(char \<Rightarrow> bool) \<Rightarrow> string \<Rightarrow> nat \<Rightarrow> nat \<Rightarrow> bool" where
  "run_of P s i k = (i + k \<le> length s \<and> list_all P (take k (drop i s)))"





section \<open>Numbers that can be coerced\<close>

text \<open>
  \<open>mask_value\<close> calls \<open>int\<close> on a number under the key \<open>phone\<close> or \<open>aadhar\<close>.
  An item is coercible when that call, if it is made, returns.
\<close>

definition coercible :: "string \<times> pyval \<Rightarrow> bool" where
  "coercible kv =
     (is_number (snd kv) \<and> fst kv \<in> set [''phone'', ''aadhar'']
        \<longrightarrow> (\<exists>i. int_val (snd kv) = Inr i))"

definition returns :: "error + 'a \<Rightarrow> bool" where
  "returns m = (\<exists>x. m = Inr x)"

section \<open>The five signals, read off the record\<close>




section \<open>Dictionaries and the masking loop\<close>

lemma bind_Inr_iff: "bind m f = Inr y \<longleftrightarrow> (\<exists>x. m = Inr x \<and> f x = Inr y)"
  by (cases m) (simp_all add: bind_def)

lemma length_dict_set: "k \<in> fst ` set d \<Longrightarrow> length (dict_set d k v) = length d"
  by (induction d) force+

lemma keys_dict_set: "k \<in> fst ` set d \<Longrightarrow> map fst (dict_set d k v) = map fst d"
  by (induction d) force+

lemma nth_dict_set_other:
  "i < length d \<Longrightarrow> fst (d ! i) \<noteq> k \<Longrightarrow> dict_set d k v ! i = d ! i"
proof (induction d arbitrary: i)
  case Nil
  then show ?case by simp
next
  case (Cons a d)
  then show ?case by (cases a; cases i) auto
qed


lemma map_of_Some_key: "map_of d k = Some v \<Longrightarrow> k \<in> fst ` set d"
  by (metis domI dom_map_of_conv_image_fst)

lemma mask_fields_keys: "mask_fields fs d = Inr d' \<Longrightarrow> map fst d' = map fst d"
proof (induction fs arbitrary: d)
  case Nil
  then show ?case by simp
next
  case (Cons f fs)
  show ?case
  proof (cases "map_of d f")
    case None
    with Cons show ?thesis by simp
  next
    case (Some v)
    with Cons.prems obtain m where m: "mask_value f v = Inr m"
      and r: "mask_fields fs (dict_set d f m) = Inr d'"
      by (auto simp: bind_Inr_iff)
    from Cons.IH [OF r] Some show ?thesis
      by (simp add: keys_dict_set map_of_Some_key)
  qed
qed

lemma mask_fields_nth_other:
  "mask_fields fs d = Inr d' \<Longrightarrow> i < length d \<Longrightarrow> fst (d ! i) \<notin> set fs \<Longrightarrow> d' ! i = d ! i"
proof (induction fs arbitrary: d)
  case Nil
  then show ?case by simp
next
  case (Cons f fs)
  show ?case
  proof (cases "map_of d f")
    case None
    with Cons show ?thesis by simp
  next
    case (Some v)
    with Cons.prems obtain m where m: "mask_value f v = Inr m"
      and r: "mask_fields fs (dict_set d f m) = Inr d'"
      by (auto simp: bind_Inr_iff)
    have k: "f \<in> fst ` set d" using Some by (rule map_of_Some_key)
    have ne: "fst (d ! i) \<noteq> f" using Cons.prems by auto
    have same: "dict_set d f m ! i = d ! i"
      using Cons.prems(2) ne by (rule nth_dict_set_other)
    have "d' ! i = dict_set d f m ! i"
      using Cons.IH [OF r] Cons.prems same by (simp add: length_dict_set k)
    with same show ?thesis by simp
  qed
qed






lemmas hit_defs = name_hit_def email_hit_def address_hit_def device_hit_def combo_hit_def




lemma combo_step_device:
  "has_device (combo_step st kv) = (has_device st \<or> device_hit kv)"
  by (cases kv) (auto simp: combo_step_def hit_defs Let_def)

lemma combo_step_fields:
  "cfields (combo_step st kv) = cfields st @ (if combo_hit kv then [fst kv] else [])"
  by (cases kv) (auto simp: combo_step_def hit_defs Let_def)




lemma foldl_combo_device:
  "has_device (foldl combo_step st data) = (has_device st \<or> (\<exists>kv \<in> set data. device_hit kv))"
  by (induction data arbitrary: st) (auto simp: combo_step_device)

lemma foldl_combo_fields:
  "cfields (foldl combo_step st data) = cfields st @ map fst (filter combo_hit data)"
  by (induction data arbitrary: st) (auto simp: combo_step_fields)




lemma scan_device: "has_device (combo_scan data) = (\<exists>kv \<in> set data. device_hit kv)"
  by (simp add: combo_scan_def foldl_combo_device combo_init_def)

lemma scan_fields: "cfields (combo_scan data) = map fst (filter combo_hit data)"
  by (simp add: combo_scan_def foldl_combo_fields combo_init_def)

lemma dict_get_absent: "k \<notin> fst ` set data \<Longrightarrow> dict_get data k = VNone"
  by (cases "map_of data k") (auto simp: dict_get_def dest: map_of_Some_key)

lemma process_record_cases:
  assumes "process_record record = Inr (is_pii, red)"
  shows "is_pii = (fst (detect_standalone_pii record) \<or> fst (detect_combinatorial_pii record))"
    and "\<not> is_pii \<Longrightarrow> red = record"
    and "is_pii \<Longrightarrow> \<exists>red1. mask_fields (snd (detect_standalone_pii record)) record = Inr red1
           \<and> (if fst (detect_combinatorial_pii record)
               then mask_fields (fst (snd (detect_combinatorial_pii record))) red1 = Inr red
               else red = red1)"
  using assms
  by (auto simp: process_record_def Let_def bind_Inr_iff split: prod.splits if_splits)

section \<open>Field lists and the masking rules\<close>






lemma split_on_nonempty: "split_on c s \<noteq> []"
  by (induction s) (auto split: list.splits)

lemma length_split_on: "length (split_on c s) = Suc (count_list s c)"
  by (induction s) (auto split: list.splits simp: split_on_nonempty)

lemma mask_at_many:
  assumes "2 \<le> count_list s CHR ''@''"
  shows "mask_at s = xes (len s)"
proof -
  have "3 \<le> length (split_on CHR ''@'' s)" using assms by (simp add: length_split_on)
  then obtain a b c r where "split_on CHR ''@'' s = a # b # c # r"
    by (metis Suc_le_length_iff numeral_3_eq_3)
  then show ?thesis by (simp add: mask_at_def)
qed

lemma mask_str_at_rule:
  assumes "\<not> (key = ''phone'' \<or> is_phone_number s)"
    and "\<not> (key = ''aadhar'' \<or> is_aadhar s)"
    and "\<not> (key = ''passport'' \<or> is_passport s)"
    and "(key = ''upi_id'' \<or> is_upi_id s) \<or> (key = ''email'' \<or> is_email s)"
  shows "mask_str key s = Inr (mask_at s)"
proof (cases "key = ''upi_id'' \<or> is_upi_id s")
  case True
  show ?thesis unfolding mask_str_def
    by (simp only: assms(1-3) True if_False if_True)
next
  case False
  with assms(4) have e: "key = ''email'' \<or> is_email s" by blast
  show ?thesis unfolding mask_str_def
    by (simp only: assms(1-3) False e if_False if_True)
qed

lemma mask_value_str:
  assumes "v \<noteq> VNone" and "key \<noteq> ''phone''" and "key \<noteq> ''aadhar''"
  shows "mask_value key v = bind (mask_str key (str_val v)) (\<lambda>m. Inr (VStr m))"
  using assms by (simp add: mask_value_def bind_def)

section \<open>The store and the pure processor\<close>

lemma process_record_alt:
  "process_record r =
     (if fst (detect_standalone_pii r) \<or> fst (detect_combinatorial_pii r) then
        bind (mask_fields (snd (detect_standalone_pii r)) r) (\<lambda>red1.
        bind (if fst (detect_combinatorial_pii r)
              then mask_fields (fst (snd (detect_combinatorial_pii r))) red1 else Inr red1)
          (\<lambda>red2. Inr (True, red2)))
      else Inr (False, r))"
  by (cases "detect_standalone_pii r"; cases "detect_combinatorial_pii r")
     (simp add: process_record_def Let_def cong: if_cong)

lemma process_record_in_alt:
  "process_record_in h a =
     (let r = (h @ [h ! a]) ! a; red = length h in
      if fst (detect_standalone_pii r) \<or> fst (detect_combinatorial_pii r) then
        bind (mask_fields_in (snd (detect_standalone_pii r)) red (h @ [h ! a])) (\<lambda>h1.
        bind (if fst (detect_combinatorial_pii r)
              then mask_fields_in (fst (snd (detect_combinatorial_pii r))) red h1 else Inr h1)
          (\<lambda>h2. Inr ((True, red), h2)))
      else Inr ((False, red), h @ [h ! a]))"
  by (cases "detect_standalone_pii ((h @ [h ! a]) ! a)";
      cases "detect_combinatorial_pii ((h @ [h ! a]) ! a)")
     (simp add: process_record_in_def dict_copy_def Let_def cong: if_cong)

lemma mask_fields_in_eq:
  "red < length h \<Longrightarrow>
   mask_fields_in fs red h = bind (mask_fields fs (h ! red)) (\<lambda>d. Inr (h[red := d]))"
proof (induction fs arbitrary: h)
  case Nil
  then show ?case by (simp add: bind_def)
next
  case (Cons f fs)
  show ?case
  proof (cases "map_of (h ! red) f")
    case None
    with Cons show ?thesis by simp
  next
    case (Some v)
    show ?thesis
    proof (cases "mask_value f v")
      case (Inl e)
      with Some show ?thesis by (simp add: bind_def)
    next
      case (Inr m)
      have "mask_fields_in fs red (h[red := dict_set (h ! red) f m])
            = bind (mask_fields fs (dict_set (h ! red) f m)) (\<lambda>d. Inr (h[red := d]))"
        using Cons.IH [of "h[red := dict_set (h ! red) f m]"] Cons.prems by simp
      with Some Inr show ?thesis by (simp add: bind_def)
    qed
  qed
qed

lemma process_record_keys:
  assumes "process_record r = Inr (b, d)"
  shows "map fst d = map fst r"
proof (cases b)
  case False
  with process_record_cases(2) [OF assms] show ?thesis by simp
next
  case True
  from process_record_cases(3) [OF assms True] obtain red1 where
    r1: "mask_fields (snd (detect_standalone_pii r)) r = Inr red1" and
    r2: "if fst (detect_combinatorial_pii r)
         then mask_fields (fst (snd (detect_combinatorial_pii r))) red1 = Inr d
         else d = red1" by blast
  have k1: "map fst red1 = map fst r" using r1 by (rule mask_fields_keys)
  have k2: "map fst d = map fst red1" using r2 by (auto dest: mask_fields_keys split: if_splits)
  from k1 k2 show ?thesis by simp
qed

lemma process_record_in_eq:
  assumes "a < length h"
  shows "process_record_in h a =
           bind (process_record (h ! a)) (\<lambda>bd. Inr ((fst bd, length h), h @ [snd bd]))"
proof -
  let ?r = "h ! a"
  let ?h0 = "h @ [?r]"
  have r: "?h0 ! a = ?r" using assms by (simp add: nth_append)
  have l: "length h < length ?h0" by simp
  have top: "?h0 ! length h = ?r" by simp
  have upd: "?h0[length h := d] = h @ [d]" for d by simp
  have m0: "mask_fields_in fs (length h) ?h0 = bind (mask_fields fs ?r) (\<lambda>d. Inr (h @ [d]))" for fs
    using mask_fields_in_eq [OF l, of fs] by (simp only: top upd)
  have m1: "mask_fields_in fs (length h) (h @ [d]) = bind (mask_fields fs d) (\<lambda>d'. Inr (h @ [d']))"
    for fs d
    using mask_fields_in_eq [of "length h" "h @ [d]" fs] by simp
  show ?thesis
  proof (cases "fst (detect_standalone_pii ?r) \<or> fst (detect_combinatorial_pii ?r)")
    case False
    then show ?thesis
      by (simp add: process_record_in_alt process_record_alt r Let_def bind_def)
  next
    case True
    show ?thesis
    proof (cases "mask_fields (snd (detect_standalone_pii ?r)) ?r")
      case (Inl e)
      with True show ?thesis
        by (simp add: process_record_in_alt process_record_alt r Let_def m0 bind_def)
    next
      case (Inr red1)
      show ?thesis
      proof (cases "fst (detect_combinatorial_pii ?r)")
        case c: False
        with True Inr show ?thesis
          by (simp add: process_record_in_alt process_record_alt r Let_def m0 bind_def)
      next
        case c: True
        show ?thesis
        proof (cases "mask_fields (fst (snd (detect_combinatorial_pii ?r))) red1")
          case i: (Inl e)
          with c Inr show ?thesis
            by (simp add: process_record_in_alt process_record_alt r Let_def m0 m1 bind_def)
        next
          case i: (Inr red2)
          with c Inr show ?thesis
            by (simp add: process_record_in_alt process_record_alt r Let_def m0 m1 bind_def)
        qed
      qed
    qed
  qed
qed

section \<open>What the recognisers accept\<close>

lemma takeWhile_ge:
  "k \<le> length (takeWhile P ys) \<longleftrightarrow> k \<le> length ys \<and> list_all P (take k ys)"
proof (induction ys arbitrary: k)
  case Nil
  then show ?case by simp
next
  case (Cons y ys)
  then show ?case by (cases k) auto
qed

lemma run_ge:
  "i \<le> length s \<Longrightarrow> k \<le> length (takeWhile P (drop i s)) \<longleftrightarrow> run_of P s i k"
  by (auto simp: takeWhile_ge run_of_def)






lemma in_Seq:
  "j \<in> set (rx_ends (Seq a b) s i) \<longleftrightarrow> (\<exists>k. k \<in> set (rx_ends a s i) \<and> j \<in> set (rx_ends b s k))"
  by auto






lemma in_Rep_min:
  assumes "i \<le> length s"
  shows "j \<in> set (rx_ends (Rep P lo None) s i) \<longleftrightarrow> (\<exists>k. j = i + k \<and> lo \<le> k \<and> run_of P s i k)"
proof -
  have "j \<in> set (rx_ends (Rep P lo None) s i)
        \<longleftrightarrow> (\<exists>k. j = i + k \<and> lo \<le> k \<and> k \<le> length (takeWhile P (drop i s)))"
    by (auto simp: Let_def)
  then show ?thesis using assms by (simp add: run_ge)
qed




lemma lower_word: "is_lower c \<Longrightarrow> is_word c"
  by (simp add: is_word_def is_alpha_def)








lemma seq_Rep_min:
  assumes "i \<le> length s"
  shows "j \<in> set (rx_ends (Seq (Rep P lo None) r) s i) \<longleftrightarrow>
           (\<exists>k. lo \<le> k \<and> run_of P s i k \<and> j \<in> set (rx_ends r s (i + k)))"
  unfolding in_Seq in_Rep_min [OF assms] by blast






















section \<open>When the processor returns\<close>

text \<open>
  Every index in the Masking Engine is taken under a length check that makes it valid, so
  the only call that can raise is \<open>int\<close> on a number under the key \<open>phone\<close> or
  \<open>aadhar\<close>: on a record whose items are all coercible \<open>process_record\<close> returns.
\<close>

lemma returns_Inr: "returns (Inr x)"
  by (simp add: returns_def)

lemma returns_if: "returns a \<Longrightarrow> returns b \<Longrightarrow> returns (if c then a else b)"
  by simp

lemma returns_bind: "returns m \<Longrightarrow> (\<And>x. returns (f x)) \<Longrightarrow> returns (bind m f)"
  by (auto simp: returns_def bind_def)

lemma index_first: "0 < len s \<Longrightarrow> returns (index s 0)"
  by (simp add: index_def returns_def Let_def)

lemma index_last: "0 < len s \<Longrightarrow> returns (index s (- 1))"
  by (simp add: index_def returns_def Let_def)

lemma mask_token_returns: "returns (mask_token p)"
proof (cases "len p > 1")
  case True
  then have "returns (index p 0)" by (simp add: index_first)
  then show ?thesis using True by (simp add: mask_token_def returns_bind returns_Inr)
next
  case False
  then show ?thesis by (simp add: mask_token_def returns_Inr)
qed

lemma collect_returns: "(\<And>m. m \<in> set ms \<Longrightarrow> returns m) \<Longrightarrow> returns (collect ms)"
  by (induction ms) (simp_all add: returns_Inr returns_bind)

lemma passport_rule_returns:
  "returns (if len s \<ge> 3
            then bind (index s 0) (\<lambda>a. bind (index s (- 1)) (\<lambda>b. Inr (a # xes (len s - 2) @ [b])))
            else Inr (xes (len s)))"
proof (cases "len s \<ge> 3")
  case True
  then have "returns (index s 0)" "returns (index s (- 1))"
    by (simp_all add: index_first index_last)
  then show ?thesis using True by (simp add: returns_bind returns_Inr)
next
  case False
  then show ?thesis by (simp add: returns_Inr)
qed

lemma name_rule_returns:
  "returns (bind (collect (map mask_token (split_ws s))) (\<lambda>ps. Inr (join '' '' ps)))"
proof -
  have "returns (collect (map mask_token (split_ws s)))"
    by (rule collect_returns) (auto simp: mask_token_returns)
  then show ?thesis by (simp add: returns_bind returns_Inr)
qed

lemma mask_str_returns: "returns (mask_str key s)"
  unfolding mask_str_def
  by (intro returns_if returns_Inr passport_rule_returns name_rule_returns mask_token_returns)

lemma str_not_number: "\<not> is_number (VStr x)"
  by (simp add: is_number_def)

lemma mask_value_returns:
  assumes "coercible (key, v)"
  shows "\<exists>m. mask_value key v = Inr m \<and> \<not> is_number m"
proof (cases "v = VNone")
  case True
  then show ?thesis by (simp add: mask_value_def is_number_def)
next
  case False
  obtain t where t: "mask_str key t' = Inr (t t')" for t'
    using mask_str_returns unfolding returns_def by metis
  show ?thesis
  proof (cases "is_number v \<and> key \<in> set [''phone'', ''aadhar'']")
    case True
    with assms obtain i where "int_val v = Inr i" by (auto simp: coercible_def)
    with True False t show ?thesis
      by (simp add: mask_value_def bind_def str_not_number)
  next
    case n: False
    with False t show ?thesis
      by (auto simp: mask_value_def bind_def str_not_number)
  qed
qed

lemma set_dict_set: "x \<in> set (dict_set d k v) \<Longrightarrow> x = (k, v) \<or> x \<in> set d"
  by (induction d) (auto split: if_splits)

lemma mask_fields_returns:
  "(\<And>kv. kv \<in> set d \<Longrightarrow> coercible kv) \<Longrightarrow>
   \<exists>d'. mask_fields fs d = Inr d' \<and> (\<forall>kv \<in> set d'. coercible kv)"
proof (induction fs arbitrary: d)
  case Nil
  then show ?case by simp
next
  case (Cons f fs)
  show ?case
  proof (cases "map_of d f")
    case None
    with Cons show ?thesis by simp
  next
    case (Some v)
    then have "(f, v) \<in> set d" by (rule map_of_SomeD)
    then have "coercible (f, v)" by (rule Cons.prems)
    then obtain m where m: "mask_value f v = Inr m" "\<not> is_number m"
      using mask_value_returns by blast
    have c: "coercible (f, m)" using m(2) by (simp add: coercible_def)
    have "coercible kv" if "kv \<in> set (dict_set d f m)" for kv
      using set_dict_set [OF that] c Cons.prems by blast
    from Cons.IH [OF this] Some m(1) show ?thesis by (simp add: bind_def)
  qed
qed

lemma process_record_returns:
  assumes "\<And>kv. kv \<in> set record \<Longrightarrow> coercible kv"
  shows "\<exists>is_pii red. process_record record = Inr (is_pii, red)"
proof -
  let ?S = "snd (detect_standalone_pii record)"
  let ?C = "fst (snd (detect_combinatorial_pii record))"
  from mask_fields_returns [OF assms, of "record" "?S"] obtain red1 where
    r1: "mask_fields ?S record = Inr red1" "\<forall>kv \<in> set red1. coercible kv" by blast
  from mask_fields_returns [of red1 "?C"] r1(2) obtain red2 where
    r2: "mask_fields ?C red1 = Inr red2" by blast
  show ?thesis using r1(1) r2 by (auto simp: process_record_alt bind_def)
qed

text \<open>
  A field that both classifiers list is masked twice when the combinatorial flag is true:
  the second call masks the output of the first. Here \<open>device_id\<close> holds a phone
  number, the first call gives \<open>98XXXXXX10\<close> and the second the device token.
\<close>

lemma masked_twice_example:
  "process_record [(''device_id'', VStr ''9876543210''), (''name'', VStr ''Ravi Kumar'')]
     = Inr (True, [(''device_id'', VStr ''[REDACTED_DEVICE_ID]''), (''name'', VStr ''RXXX KXXXX'')])
   \<and> mask_value ''device_id'' (VStr ''9876543210'') = Inr (VStr ''98XXXXXX10'')"
proof -
  have 1: "process_record [(''device_id'', VStr ''9876543210''), (''name'', VStr ''Ravi Kumar'')]
     = Inr (True, [(''device_id'', VStr ''[REDACTED_DEVICE_ID]''), (''name'', VStr ''RXXX KXXXX'')])"
    by code_simp
  have 2: "mask_value ''device_id'' (VStr ''9876543210'') = Inr (VStr ''98XXXXXX10'')"
    by code_simp
  from 1 2 show ?thesis by blast
qed

section \<open>The scan and the signals of the record\<close>











section \<open>The pattern library\<close>




section \<open>The combinatorial classifier\<close>

text \<open>
  Claim C4, as amended. A field named \<open>device_id\<close> or \<open>ip_address\<close> raises the device
  signal when its value is not null, whatever the value's content: the loop of
  \<open>detect_combinatorial_pii\<close> skips a null value before it looks at the key. The signal is
  true exactly when the record has such a field with a value that is not null, and each
  of the two names is in the contributing-fields list exactly when it is present with a
  value that is not null, so both are listed when both are.
\<close>

theorem C4_device_signal:
  assumes "k = ''device_id'' \<or> k = ''ip_address''"
  shows "(has_device (combo_scan data) \<longleftrightarrow>
            (\<exists>k' v. (k', v) \<in> set data \<and> (k' = ''device_id'' \<or> k' = ''ip_address'') \<and> v \<noteq> VNone))
         \<and> (k \<in> set (fst (snd (detect_combinatorial_pii data))) \<longleftrightarrow>
            (\<exists>v. (k, v) \<in> set data \<and> v \<noteq> VNone))"
proof -
  have 1: "has_device (combo_scan data) \<longleftrightarrow>
      (\<exists>k' v. (k', v) \<in> set data \<and> (k' = ''device_id'' \<or> k' = ''ip_address'') \<and> v \<noteq> VNone)"
  proof
    assume "has_device (combo_scan data)"
    then obtain kv where kv: "kv \<in> set data" "device_hit kv" by (auto simp: scan_device)
    have "(fst kv, snd kv) \<in> set data" using kv by simp
    moreover have "(fst kv = ''device_id'' \<or> fst kv = ''ip_address'') \<and> snd kv \<noteq> VNone"
      using kv by (auto simp: device_hit_def)
    ultimately show "\<exists>k' v. (k', v) \<in> set data \<and> (k' = ''device_id'' \<or> k' = ''ip_address'') \<and> v \<noteq> VNone"
      by blast
  next
    assume "\<exists>k' v. (k', v) \<in> set data \<and> (k' = ''device_id'' \<or> k' = ''ip_address'') \<and> v \<noteq> VNone"
    then obtain k' v where "(k', v) \<in> set data" "device_hit (k', v)"
      by (auto simp: device_hit_def)
    then show "has_device (combo_scan data)" unfolding scan_device by blast
  qed
  have hit: "combo_hit (k, v) \<longleftrightarrow> v \<noteq> VNone" for v
    using assms by (auto simp: hit_defs)
  have "k \<in> set (cfields (combo_scan data)) \<longleftrightarrow> (\<exists>v. (k, v) \<in> set data \<and> v \<noteq> VNone)"
  proof
    assume "k \<in> set (cfields (combo_scan data))"
    then obtain v where "(k, v) \<in> set data" "combo_hit (k, v)"
      by (auto simp: scan_fields)
    then show "\<exists>v. (k, v) \<in> set data \<and> v \<noteq> VNone" using hit by blast
  next
    assume "\<exists>v. (k, v) \<in> set data \<and> v \<noteq> VNone"
    then obtain v where "(k, v) \<in> set data" "combo_hit (k, v)" using hit by blast
    then show "k \<in> set (cfields (combo_scan data))" by (force simp: scan_fields)
  qed
  moreover have "k \<noteq> ''first_name''" "k \<noteq> ''last_name''" using assms by auto
  ultimately have 2: "k \<in> set (fst (snd (detect_combinatorial_pii data))) \<longleftrightarrow>
      (\<exists>v. (k, v) \<in> set data \<and> v \<noteq> VNone)"
    by (simp add: detect_combinatorial_pii_def combo_fields_def)
  from 1 2 show ?thesis by blast
qed

theorem C4_device_signal_witness:
  "has_device (combo_scan [(''device_id'', VStr ''dev-1''), (''ip_address'', VStr ''10.0.0.5'')])
   \<and> ''ip_address'' \<in> set (fst (snd (detect_combinatorial_pii
        [(''device_id'', VStr ''dev-1''), (''ip_address'', VStr ''10.0.0.5'')])))"
  using C4_device_signal [of "''ip_address''"
      "[(''device_id'', VStr ''dev-1''), (''ip_address'', VStr ''10.0.0.5'')]"]
  by fastforce

text \<open>
  The claim as stated fails on a null value: the record \<open>{"device_id": null}\<close> has the
  key, yet the device signal stays false and no field is listed.
\<close>

theorem C4_null_device_counterexample:
  "\<not> has_device (combo_scan [(''device_id'', VNone)])
   \<and> fst (snd (detect_combinatorial_pii [(''device_id'', VNone)])) = []"
  by (simp add: combo_scan_def combo_step_def combo_init_def detect_combinatorial_pii_def
      combo_fields_def has_name_parts_def dict_get_def truthy_def)



section \<open>The record processor\<close>




text \<open>
  Claim C6. Every field whose value differs between a record and the redacted record that
  \<open>process_record\<close> returns is in the standalone classifier's flagged-field list or in
  the combinatorial classifier's contributing-field list: at every position whose key is
  outside both lists the two records hold the same item.
\<close>

theorem C6_field_containment:
  assumes "process_record record = Inr (is_pii, red)"
  shows "length red = length record \<and>
         (\<forall>i < length record. red ! i \<noteq> record ! i \<longrightarrow>
            fst (record ! i) \<in> set (snd (detect_standalone_pii record))
                                \<union> set (fst (snd (detect_combinatorial_pii record))))"
proof (cases is_pii)
  case False
  with process_record_cases(2) [OF assms] show ?thesis by simp
next
  case True
  from process_record_cases(3) [OF assms True] obtain red1 where
    r1: "mask_fields (snd (detect_standalone_pii record)) record = Inr red1" and
    r2: "if fst (detect_combinatorial_pii record)
         then mask_fields (fst (snd (detect_combinatorial_pii record))) red1 = Inr red
         else red = red1" by blast
  have k1: "map fst red1 = map fst record" using r1 by (rule mask_fields_keys)
  have k2: "map fst red = map fst red1" using r2 by (auto dest: mask_fields_keys split: if_splits)
  have l1: "length red1 = length record" using k1 by (metis length_map)
  have l2: "length red = length red1" using k2 by (metis length_map)
  have "red ! i = record ! i"
    if i: "i < length record"
      and a: "fst (record ! i) \<notin> set (snd (detect_standalone_pii record))"
      and b: "fst (record ! i) \<notin> set (fst (snd (detect_combinatorial_pii record)))" for i
  proof -
    have s1: "red1 ! i = record ! i" using r1 i a by (rule mask_fields_nth_other)
    have "fst (red1 ! i) = fst (record ! i)" using s1 by simp
    then have "red ! i = red1 ! i"
      using r2 i l1 b by (auto dest: mask_fields_nth_other split: if_splits)
    with s1 show ?thesis by simp
  qed
  with l1 l2 show ?thesis by auto
qed

theorem C6_field_containment_witness:
  "process_record [(''name'', VStr ''Ravi Kumar''), (''email'', VStr ''ravi.kumar@example.com''),
                   (''city'', VStr ''Pune'')]
     = Inr (True, [(''name'', VStr ''RXXX KXXXX''), (''email'', VStr ''rXXXXXXXXr@example.com''),
                   (''city'', VStr ''Pune'')])
   \<and> [(''name'', VStr ''RXXX KXXXX''), (''email'', VStr ''rXXXXXXXXr@example.com''),
       (''city'', VStr ''Pune'')] ! 2 = (''city'', VStr ''Pune'')"
proof -
  have run: "process_record [(''name'', VStr ''Ravi Kumar''),
                 (''email'', VStr ''ravi.kumar@example.com''), (''city'', VStr ''Pune'')]
     = Inr (True, [(''name'', VStr ''RXXX KXXXX''), (''email'', VStr ''rXXXXXXXXr@example.com''),
                   (''city'', VStr ''Pune'')])"
    by code_simp
  from C6_field_containment [OF run] show ?thesis using run by simp
qed

text \<open>
  Claim C7. When neither classifier flags the record, \<open>process_record\<close> returns, with
  \<open>is_pii\<close> false and a redacted record equal to the input: the same keys with the same
  values in the same order.
\<close>

theorem C7_non_pii_unchanged:
  assumes "\<not> fst (detect_standalone_pii record)" and "\<not> fst (detect_combinatorial_pii record)"
  shows "process_record record = Inr (False, record)"
  using assms by (auto simp: process_record_def Let_def split: prod.splits)

theorem C7_non_pii_unchanged_witness:
  "process_record [(''name'', VStr ''Ravi Kumar'')] = Inr (False, [(''name'', VStr ''Ravi Kumar'')])"
proof -
  have 1: "\<not> fst (detect_standalone_pii [(''name'', VStr ''Ravi Kumar'')])" by code_simp
  have 2: "\<not> fst (detect_combinatorial_pii [(''name'', VStr ''Ravi Kumar'')])" by code_simp
  from C7_non_pii_unchanged [OF 1 2] show ?thesis .
qed

text \<open>
  Claim C8. On a store, \<open>process_record\<close> returns the address of a new dictionary that
  has the keys of the input record in the same order, so no key is introduced or removed;
  the dictionary at the input's address, and every other dictionary that was in the store
  before the call, is left as it was.
\<close>

theorem C8_keys_and_input:
  assumes "record < length h" and "process_record_in h record = Inr ((is_pii, red), h')"
  shows "map fst (h' ! red) = map fst (h ! record)
         \<and> h' ! record = h ! record
         \<and> red \<noteq> record
         \<and> take (length h) h' = h"
proof -
  from assms obtain b d where p: "process_record (h ! record) = Inr (b, d)"
    and e: "is_pii = b" "red = length h" "h' = h @ [d]"
    by (auto simp: process_record_in_eq bind_Inr_iff)
  have k: "map fst d = map fst (h ! record)" using p by (rule process_record_keys)
  show ?thesis using e k assms(1) by (simp add: nth_append)
qed

theorem C8_keys_and_input_witness:
  "process_record_in [[(''phone'', VStr ''9876543210''), (''city'', VStr ''Pune'')]] 0
     = Inr ((True, 1), [[(''phone'', VStr ''9876543210''), (''city'', VStr ''Pune'')],
                        [(''phone'', VStr ''98XXXXXX10''), (''city'', VStr ''Pune'')]])
   \<and> map fst ([[(''phone'', VStr ''9876543210''), (''city'', VStr ''Pune'')],
               [(''phone'', VStr ''98XXXXXX10''), (''city'', VStr ''Pune'')]] ! 1)
     = map fst ([[(''phone'', VStr ''9876543210''), (''city'', VStr ''Pune'')]] ! 0)"
proof -
  have l: "(0::nat) < length [[(''phone'', VStr ''9876543210''), (''city'', VStr ''Pune'')]]"
    by simp
  have run: "process_record_in [[(''phone'', VStr ''9876543210''), (''city'', VStr ''Pune'')]] 0
     = Inr ((True, 1), [[(''phone'', VStr ''9876543210''), (''city'', VStr ''Pune'')],
                        [(''phone'', VStr ''98XXXXXX10''), (''city'', VStr ''Pune'')]])"
    by code_simp
  from C8_keys_and_input [OF l run] run show ?thesis by blast
qed

text \<open>
  Claim C9. \<open>process_record\<close> does not return on every well-formed record. A number
  under the key \<open>phone\<close> or \<open>aadhar\<close> is flagged by its key and then masked through
  \<open>str(int(value))\<close>, and \<open>int\<close> raises on an infinity or a NaN, which
  \<open>json.loads\<close> accepts as numbers: on \<open>{"phone": Infinity}\<close> the call ends in
  \<open>OverflowError\<close>. It is the only way to fail (\<open>process_record_returns\<close>).
\<close>

theorem C9_infinite_phone_raises:
  "process_record [(''phone'', VFloat (PyFloat ''inf'' (Inl OverflowError) True))]
     = Inl OverflowError"
  by code_simp

section \<open>The masking engine\<close>

text \<open>
  Claim C3. The aadhar rule keeps the first 3 and the last 3 characters and puts exactly
  six \<open>X\<close> between them, whatever the length: the 14 characters of
  \<open>1234 5678 9012\<close> under the key \<open>aadhar\<close> become the 12 characters
  \<open>123XXXXXX012\<close>, so the middle is not replaced character for character and the
  output is shorter than the input.
\<close>

theorem C3_aadhar_fixed_middle:
  "mask_value ''aadhar'' (VStr ''1234 5678 9012'') = Inr (VStr ''123XXXXXX012'')
   \<and> length ''123XXXXXX012'' < length ''1234 5678 9012''"
proof -
  have "mask_value ''aadhar'' (VStr ''1234 5678 9012'') = Inr (VStr ''123XXXXXX012'')"
    by code_simp
  then show ?thesis by simp
qed

text \<open>
  Claim C10. A value that reaches the \<open>upi_id\<close> or the \<open>email\<close> rule of
  \<open>mask_value\<close> (the phone, aadhar and passport rules do not apply) and whose string
  form holds two or more \<open>@\<close> is split into more than two parts and is masked to one
  \<open>X\<close> per character: nothing of the domain is kept.
\<close>

theorem C10_many_at:
  assumes "v \<noteq> VNone" and "s = str_val v"
    and "\<not> (key = ''phone'' \<or> is_phone_number s)"
    and "\<not> (key = ''aadhar'' \<or> is_aadhar s)"
    and "\<not> (key = ''passport'' \<or> is_passport s)"
    and "(key = ''upi_id'' \<or> is_upi_id s) \<or> (key = ''email'' \<or> is_email s)"
    and "2 \<le> count_list s CHR ''@''"
  shows "length (split_on CHR ''@'' s) > 2
         \<and> mask_value key v = Inr (VStr (replicate (length s) CHR ''X''))"
proof -
  have 1: "length (split_on CHR ''@'' s) > 2" using assms(7) by (simp add: length_split_on)
  have m: "mask_at s = replicate (length s) CHR ''X''"
    using mask_at_many [OF assms(7)] by (simp add: xes_def len_def)
  have r: "mask_str key s = Inr (mask_at s)"
    using assms(3-6) by (rule mask_str_at_rule)
  have k: "key \<noteq> ''phone''" "key \<noteq> ''aadhar''" using assms(3,4) by blast+
  have "mask_value key v = bind (mask_str key (str_val v)) (\<lambda>m. Inr (VStr m))"
    using assms(1) k by (rule mask_value_str)
  then have 2: "mask_value key v = Inr (VStr (replicate (length s) CHR ''X''))"
    using r m assms(2) by (simp add: bind_def)
  from 1 2 show ?thesis by blast
qed

theorem C10_many_at_witness:
  "mask_value ''email'' (VStr ''a@b@c.com'') = Inr (VStr ''XXXXXXXXX'')"
proof -
  have 1: "\<not> (''email'' = ''phone'' \<or> is_phone_number ''a@b@c.com'')" by code_simp
  have 2: "\<not> (''email'' = ''aadhar'' \<or> is_aadhar ''a@b@c.com'')" by code_simp
  have 3: "\<not> (''email'' = ''passport'' \<or> is_passport ''a@b@c.com'')" by code_simp
  have 4: "(''email'' = ''upi_id'' \<or> is_upi_id ''a@b@c.com'')
           \<or> (''email'' = ''email'' \<or> is_email ''a@b@c.com'')" by simp
  have 5: "2 \<le> count_list ''a@b@c.com'' CHR ''@''" by simp
  have 6: "''a@b@c.com'' = str_val (VStr ''a@b@c.com'')" by (simp add: str_val_def)
  have 7: "VStr ''a@b@c.com'' \<noteq> VNone" by simp
  have r: "replicate (length ''a@b@c.com'') CHR ''X'' = ''XXXXXXXXX''" by code_simp
  have t: "length (split_on CHR ''@'' ''a@b@c.com'') > 2
     \<and> mask_value ''email'' (VStr ''a@b@c.com'')
         = Inr (VStr (replicate (length ''a@b@c.com'') CHR ''X''))"
    by (rule C10_many_at [OF 7 6 1 2 3 4 5])
  from t [unfolded r] show ?thesis by (rule conjunct2)
qed

end
